theory Spec2Isabelle
  imports Main
begin

section \<open>The linked queue of \<open>src/index.ts\<close>\<close>

subsection \<open>Data model\<close>

text \<open>
  A link object lives in a store of links; a reference to a link is its index in the
  store, and \<open>null\<close> is \<open>None\<close>. Links are private to the queue that allocated them, so
  the store is a field of the queue's state. A link that is no longer reachable stays
  in the store (nothing in the program can observe its collection). A JavaScript
  reference always points to an object: the references that a queue holds are indices of
  links of its store, which is part of the structural invariant below (\<open>chain\<close> gives
  no result for an index outside the store), established by the constructor and kept by
  every operation.
\<close>

type_synonym addr = nat

record 'a IQueueLink =
  link_next :: "addr option"
  link_value :: 'a

text \<open>
  The private fields \<open>_size\<close>, \<open>_front\<close> and \<open>_back\<close>, with the store of the links
  allocated so far. \<open>_size\<close> is a JavaScript number that is only ever incremented and
  decremented from 0: an integer.
\<close>

record 'a Queue =
  heap :: "'a IQueueLink list"
  p_size :: int
  p_front :: "addr option"
  p_back :: "addr option"

text \<open>
  A JavaScript array may have holes: \<open>new Array(n)\<close> has \<open>n\<close> of them. An array is a
  list of slots, \<open>None\<close> being a hole.
\<close>

type_synonym 'a array = "'a option list"

datatype error = RangeError

text \<open>
  A callback is the caller's code: it may read and change the caller's own state
  \<open>'u\<close>, and nothing in the language stops it from calling methods of the queue it is
  iterating over. A callback is therefore a function on the whole state, the queue and
  the caller's state.
\<close>

type_synonym ('a, 'u) world = "'a Queue \<times> 'u"

type_synonym ('a, 'u, 'r) callback = "'a \<Rightarrow> nat \<Rightarrow> ('a, 'u) world \<Rightarrow> 'r \<times> ('a, 'u) world"

subsection \<open>Construction and the constant-time operations\<close>

text \<open>The field initialisers \<open>_size = 0\<close>, \<open>_front = null\<close>, \<open>_back = null\<close>.\<close>

definition Queue_init :: "'a Queue" where
  "Queue_init = \<lparr>heap = [], p_size = 0, p_front = None, p_back = None\<rparr>"

definition size_q :: "'a Queue \<Rightarrow> int" where
  "size_q q = p_size q"

definition empty_q :: "'a Queue \<Rightarrow> bool" where
  "empty_q q = (p_size q = 0)"

text \<open>
  \<open>front\<close> and \<open>back\<close> return \<open>undefined\<close> when the reference is null. A result that is
  a value of type \<open>T\<close> or \<open>undefined\<close> is an option, \<open>None\<close> being \<open>undefined\<close>.
\<close>

definition front_q :: "'a Queue \<Rightarrow> 'a option" where
  "front_q q = (case p_front q of None \<Rightarrow> None | Some a \<Rightarrow> Some (link_value (heap q ! a)))"

definition back_q :: "'a Queue \<Rightarrow> 'a option" where
  "back_q q = (case p_back q of None \<Rightarrow> None | Some a \<Rightarrow> Some (link_value (heap q ! a)))"

text \<open>
  \<open>push\<close> allocates the new link at the next free index of the store, then links it
  behind the current back link.
\<close>

definition push :: "'a \<Rightarrow> 'a Queue \<Rightarrow> 'a Queue" where
  "push v q =
     (let link = length (heap q);
          h = heap q @ [\<lparr>link_next = None, link_value = v\<rparr>];
          q1 = (case p_back q of
                  None \<Rightarrow> q\<lparr>heap := h, p_front := Some link, p_back := Some link\<rparr>
                | Some b \<Rightarrow> q\<lparr>heap := h[b := (h ! b)\<lparr>link_next := Some link\<rparr>],
                              p_back := Some link\<rparr>)
      in q1\<lparr>p_size := p_size q1 + 1\<rparr>)"

definition pop :: "'a Queue \<Rightarrow> 'a option \<times> 'a Queue" where
  "pop q =
     (case p_front q of
        None \<Rightarrow> (None, q)
      | Some link \<Rightarrow>
          (let q1 = (if link_next (heap q ! link) = None
                     then q\<lparr>p_front := None, p_back := None\<rparr>
                     else q\<lparr>p_front := link_next (heap q ! link)\<rparr>)
           in (Some (link_value (heap q1 ! link)), q1\<lparr>p_size := p_size q1 - 1\<rparr>)))"

definition clear :: "'a Queue \<Rightarrow> 'a Queue" where
  "clear q = q\<lparr>p_size := 0, p_front := None, p_back := None\<rparr>"

text \<open>
  The constructor: \<open>items\<close> is optional, and \<open>Array.prototype.forEach\<close> visits the
  slots of the array in order, skipping holes.
\<close>

fun constructor_forEach :: "'a array \<Rightarrow> 'a Queue \<Rightarrow> 'a Queue" where
  "constructor_forEach [] q = q"
| "constructor_forEach (None # items) q = constructor_forEach items q"
| "constructor_forEach (Some item # items) q = constructor_forEach items (push item q)"

definition Queue_new :: "'a array option \<Rightarrow> 'a Queue" where
  "Queue_new items =
     (case items of None \<Rightarrow> Queue_init | Some xs \<Rightarrow> constructor_forEach xs Queue_init)"

subsection \<open>The loops over the chain\<close>

text \<open>
  Each loop follows \<open>next\<close> until it finds \<open>null\<close>. On a store whose chain is cyclic it
  never ends, so each loop is a partial function: \<open>None\<close> means that it does not return.
  Equality of elements is the element type's strict equality \<open>===\<close>, a parameter
  \<open>eq\<close> of the two operations that compare (it need not be reflexive: \<open>NaN\<close>).
\<close>

partial_function (option) remove_loop ::
  "('a \<Rightarrow> 'a \<Rightarrow> bool) \<Rightarrow> 'a \<Rightarrow> addr option \<Rightarrow> addr option \<Rightarrow> 'a Queue \<Rightarrow> (bool \<times> 'a Queue) option"
where
  "remove_loop eq v link prev q =
     (case link of
        None \<Rightarrow> Some (False, q)
      | Some a \<Rightarrow>
          if eq (link_value (heap q ! a)) v then
            (let q1 = (case prev of
                         None \<Rightarrow> q\<lparr>p_front := link_next (heap q ! a)\<rparr>
                       | Some p \<Rightarrow>
                           q\<lparr>heap := (heap q)[p := (heap q ! p)\<lparr>link_next := link_next (heap q ! a)\<rparr>]\<rparr>);
                 q2 = (if link_next (heap q1 ! a) = None then q1\<lparr>p_back := prev\<rparr> else q1)
             in Some (True, q2\<lparr>p_size := p_size q2 - 1\<rparr>))
          else remove_loop eq v (link_next (heap q ! a)) (Some a) q)"

declare remove_loop.simps [code]

definition remove :: "('a \<Rightarrow> 'a \<Rightarrow> bool) \<Rightarrow> 'a \<Rightarrow> 'a Queue \<Rightarrow> (bool \<times> 'a Queue) option" where
  "remove eq v q = remove_loop eq v (p_front q) None q"

partial_function (option) removeAll_loop ::
  "('a \<Rightarrow> 'a \<Rightarrow> bool) \<Rightarrow> 'a \<Rightarrow> int \<Rightarrow> addr option \<Rightarrow> addr option \<Rightarrow> 'a Queue
     \<Rightarrow> (int \<times> addr option \<times> 'a Queue) option"
where
  "removeAll_loop eq v count link prev q =
     (case link of
        None \<Rightarrow> Some (count, prev, q)
      | Some a \<Rightarrow>
          if eq (link_value (heap q ! a)) v then
            removeAll_loop eq v (count + 1) (link_next (heap q ! a)) prev
              (q\<lparr>p_size := p_size q - 1\<rparr>)
          else
            (case prev of
               None \<Rightarrow>
                 removeAll_loop eq v count (link_next (heap q ! a)) (Some a)
                   (q\<lparr>p_front := Some a\<rparr>)
             | Some p \<Rightarrow>
                 (let h = (heap q)[p := (heap q ! p)\<lparr>link_next := Some a\<rparr>]
                  in removeAll_loop eq v count (link_next (h ! a)) (Some a) (q\<lparr>heap := h\<rparr>))))"

declare removeAll_loop.simps [code]

definition removeAll_q :: "('a \<Rightarrow> 'a \<Rightarrow> bool) \<Rightarrow> 'a \<Rightarrow> 'a Queue \<Rightarrow> (int \<times> 'a Queue) option" where
  "removeAll_q eq v q =
     (case removeAll_loop eq v 0 (p_front q) None q of
        None \<Rightarrow> None
      | Some (count, prev, q1) \<Rightarrow>
          (case prev of
             None \<Rightarrow> Some (count, q1\<lparr>p_front := None, p_back := None\<rparr>)
           | Some p \<Rightarrow>
               Some (count, q1\<lparr>heap := (heap q1)[p := (heap q1 ! p)\<lparr>link_next := None\<rparr>],
                                p_back := Some p\<rparr>)))"

text \<open>
  \<open>result[i] = v\<close> on a JavaScript array: inside the array it overwrites the slot,
  beyond its end it extends the array, leaving holes in between.
\<close>

definition array_set :: "'a array \<Rightarrow> nat \<Rightarrow> 'a \<Rightarrow> 'a array" where
  "array_set xs i v =
     (if i < length xs then xs[i := Some v]
      else xs @ replicate (i - length xs) None @ [Some v])"

partial_function (option) toArray_loop ::
  "'a IQueueLink list \<Rightarrow> nat \<Rightarrow> addr option \<Rightarrow> 'a array \<Rightarrow> 'a array option"
where
  "toArray_loop h i link result =
     (case link of
        None \<Rightarrow> Some result
      | Some a \<Rightarrow>
          toArray_loop h (i + 1) (link_next (h ! a)) (array_set result i (link_value (h ! a))))"

declare toArray_loop.simps [code]

text \<open>
  \<open>new Array(n)\<close> throws a \<open>RangeError\<close> when \<open>n\<close> is negative. The largest length of
  an array and the precision of a number are limits of the machine, like its memory, and
  are not modelled: a count is an integer and an array a list, both unbounded.
\<close>

definition toArray :: "'a Queue \<Rightarrow> (error + 'a array) option" where
  "toArray q =
     (if p_size q < 0 then Some (Inl RangeError)
      else map_option Inr
             (toArray_loop (heap q) 0 (p_front q) (replicate (nat (p_size q)) None)))"

partial_function (option) some_loop ::
  "('a, 'u, bool) callback \<Rightarrow> nat \<Rightarrow> addr option \<Rightarrow> ('a, 'u) world \<Rightarrow> (bool \<times> ('a, 'u) world) option"
where
  "some_loop pred i link w =
     (case link of
        None \<Rightarrow> Some (False, w)
      | Some a \<Rightarrow>
          (case pred (link_value (heap (fst w) ! a)) i w of
             (r, w1) \<Rightarrow>
               if r then Some (True, w1)
               else some_loop pred (i + 1) (link_next (heap (fst w1) ! a)) w1))"

declare some_loop.simps [code]

definition some :: "('a, 'u, bool) callback \<Rightarrow> ('a, 'u) world \<Rightarrow> (bool \<times> ('a, 'u) world) option" where
  "some pred w = some_loop pred 0 (p_front (fst w)) w"

partial_function (option) every_loop ::
  "('a, 'u, bool) callback \<Rightarrow> nat \<Rightarrow> addr option \<Rightarrow> ('a, 'u) world \<Rightarrow> (bool \<times> ('a, 'u) world) option"
where
  "every_loop pred i link w =
     (case link of
        None \<Rightarrow> Some (True, w)
      | Some a \<Rightarrow>
          (case pred (link_value (heap (fst w) ! a)) i w of
             (r, w1) \<Rightarrow>
               if \<not> r then Some (False, w1)
               else every_loop pred (i + 1) (link_next (heap (fst w1) ! a)) w1))"

declare every_loop.simps [code]

definition every :: "('a, 'u, bool) callback \<Rightarrow> ('a, 'u) world \<Rightarrow> (bool \<times> ('a, 'u) world) option" where
  "every pred w = every_loop pred 0 (p_front (fst w)) w"

partial_function (option) filter_loop ::
  "('a, 'u, bool) callback \<Rightarrow> nat \<Rightarrow> addr option \<Rightarrow> 'a array \<Rightarrow> ('a, 'u) world
     \<Rightarrow> ('a array \<times> ('a, 'u) world) option"
where
  "filter_loop pred i link result w =
     (case link of
        None \<Rightarrow> Some (result, w)
      | Some a \<Rightarrow>
          (case pred (link_value (heap (fst w) ! a)) i w of
             (r, w1) \<Rightarrow>
               filter_loop pred (i + 1) (link_next (heap (fst w1) ! a))
                 (if r then result @ [Some (link_value (heap (fst w1) ! a))] else result) w1))"

declare filter_loop.simps [code]

definition filter_q ::
  "('a, 'u, bool) callback \<Rightarrow> ('a, 'u) world \<Rightarrow> ('a array \<times> ('a, 'u) world) option" where
  "filter_q pred w = filter_loop pred 0 (p_front (fst w)) [] w"

text \<open>
  \<open>forEach\<close>: the callback returns a value or \<open>undefined\<close> (\<open>None\<close>); the first result
  that is not \<open>undefined\<close> ends the loop.
\<close>

partial_function (option) forEach_loop ::
  "('a, 'u, 'r option) callback \<Rightarrow> nat \<Rightarrow> addr option \<Rightarrow> ('a, 'u) world
     \<Rightarrow> ('r option \<times> ('a, 'u) world) option"
where
  "forEach_loop callback i link w =
     (case link of
        None \<Rightarrow> Some (None, w)
      | Some a \<Rightarrow>
          (case callback (link_value (heap (fst w) ! a)) i w of
             (result, w1) \<Rightarrow>
               if result \<noteq> None then Some (result, w1)
               else forEach_loop callback (i + 1) (link_next (heap (fst w1) ! a)) w1))"

declare forEach_loop.simps [code]

definition forEach ::
  "('a, 'u, 'r option) callback \<Rightarrow> ('a, 'u) world \<Rightarrow> ('r option \<times> ('a, 'u) world) option" where
  "forEach callback w = forEach_loop callback 0 (p_front (fst w)) w"

subsection \<open>The chain of a queue, its elements and the structural invariant\<close>

text \<open>
  \<open>chain h n p\<close> follows \<open>next\<close> from \<open>p\<close>: it is the list of the \<open>n\<close> links visited
  when \<open>null\<close> is reached after exactly \<open>n\<close> steps, and \<open>None\<close> when \<open>null\<close> comes
  earlier, later or never, or when a reference is not a link of the store.
\<close>

fun chain :: "'a IQueueLink list \<Rightarrow> nat \<Rightarrow> addr option \<Rightarrow> addr list option" where
  "chain h 0 p = (case p of None \<Rightarrow> Some [] | Some a \<Rightarrow> None)"
| "chain h (Suc n) p =
     (case p of
        None \<Rightarrow> None
      | Some a \<Rightarrow>
          if a < length h then map_option ((#) a) (chain h n (link_next (h ! a))) else None)"

text \<open>The front-to-back sequence of the elements of a queue.\<close>

definition elements :: "'a Queue \<Rightarrow> 'a list" where
  "elements q =
     (case chain (heap q) (nat (p_size q)) (p_front q) of
        None \<Rightarrow> []
      | Some as \<Rightarrow> map (\<lambda>a. link_value (heap q ! a)) as)"

text \<open>
  The structural invariant: the count is 0 iff the front is null iff the back is null;
  the chain from the front reaches null after exactly count steps and visits no link
  twice; the back is the last link of the chain, and its \<open>next\<close> is null.
\<close>

definition invariant :: "'a Queue \<Rightarrow> bool" where
  "invariant q =
     (((p_size q = 0) = (p_front q = None)) \<and>
      ((p_front q = None) = (p_back q = None)) \<and>
      0 \<le> p_size q \<and>
      (case chain (heap q) (nat (p_size q)) (p_front q) of
         None \<Rightarrow> False
       | Some as \<Rightarrow>
           distinct as \<and>
           (case p_back q of
              None \<Rightarrow> as = []
            | Some b \<Rightarrow>
                as \<noteq> [] \<and> last as = b \<and> b < length (heap q) \<and>
                link_next (heap q ! b) = None)))"

text \<open>
  For the proofs: \<open>seg h p as e\<close> says that following \<open>next\<close> from \<open>p\<close> visits the
  links \<open>as\<close> and then arrives at \<open>e\<close>; \<open>linked q as\<close> says that \<open>as\<close> is the chain of
  the queue and that its three fields agree with it.
\<close>

primrec seg :: "'a IQueueLink list \<Rightarrow> addr option \<Rightarrow> addr list \<Rightarrow> addr option \<Rightarrow> bool" where
  "seg h p [] e = (p = e)"
| "seg h p (a # as) e = (p = Some a \<and> a < length h \<and> seg h (link_next (h ! a)) as e)"

definition head_of :: "'b list \<Rightarrow> 'b option" where
  "head_of xs = (case xs of [] \<Rightarrow> None | x # _ \<Rightarrow> Some x)"

definition last_of :: "'b list \<Rightarrow> 'b option" where
  "last_of xs = (if xs = [] then None else Some (last xs))"

definition linked :: "'a Queue \<Rightarrow> addr list \<Rightarrow> bool" where
  "linked q as =
     (seg (heap q) (p_front q) as None \<and> p_size q = int (length as) \<and>
      p_back q = last_of as)"

definition vals :: "'a IQueueLink list \<Rightarrow> addr list \<Rightarrow> 'a list" where
  "vals h as = map (\<lambda>a. link_value (h ! a)) as"

text \<open>
  While the loop of \<open>removeAll\<close> runs, the links kept so far are joined to each other,
  and the \<open>next\<close> of the last one is still what it was.
\<close>

definition joined :: "'a IQueueLink list \<Rightarrow> addr option \<Rightarrow> addr list \<Rightarrow> bool" where
  "joined h p ks = (ks = [] \<or> (seg h p (butlast ks) (Some (last ks)) \<and> last ks < length h))"

subsection \<open>Sequences of calls, callbacks and the rebuilding \<open>removeAll\<close>\<close>

text \<open>Pushing the values of a list in order, and popping \<open>n\<close> times, collecting the results.\<close>

fun push_all :: "'a list \<Rightarrow> 'a Queue \<Rightarrow> 'a Queue" where
  "push_all [] q = q"
| "push_all (v # vs) q = push_all vs (push v q)"

fun pop_n :: "nat \<Rightarrow> 'a Queue \<Rightarrow> 'a option list \<times> 'a Queue" where
  "pop_n 0 q = ([], q)"
| "pop_n (Suc n) q =
     (case pop q of (r, q1) \<Rightarrow> (case pop_n n q1 of (rs, q2) \<Rightarrow> (r # rs, q2)))"

text \<open>
  A callback that does not mutate the queue returns the queue it was given. The callback
  \<open>logging f\<close> computes \<open>f\<close> on the element and its index and records the call in the
  caller's state, a list of the calls made so far.
\<close>

definition preserves_queue :: "('a, 'u, 'r) callback \<Rightarrow> bool" where
  "preserves_queue cb = (\<forall>v i w. fst (snd (cb v i w)) = fst w)"

definition logging :: "('a \<Rightarrow> nat \<Rightarrow> 'r) \<Rightarrow> ('a, ('a \<times> nat) list, 'r) callback" where
  "logging f v i w = (f v i, (fst w, snd w @ [(v, i)]))"

text \<open>The calls on the first \<open>n\<close> elements of \<open>xs\<close>, each with its index.\<close>

definition calls :: "nat \<Rightarrow> 'a list \<Rightarrow> ('a \<times> nat) list" where
  "calls n xs = zip (take n xs) [0..<n]"

text \<open>
  For the proofs, what a traversal does on the sequence of the elements when the callback
  leaves the queue alone: \<open>visit_list stop cb i xs w\<close> calls \<open>cb\<close> on the elements of
  \<open>xs\<close> in order, counting the index from \<open>i\<close>, and ends at the first result for which
  \<open>stop\<close> holds; \<open>filter_list\<close> is the loop of \<open>filter\<close> on a list.
\<close>

fun visit_list ::
  "('r \<Rightarrow> bool) \<Rightarrow> ('a, 'u, 'r) callback \<Rightarrow> nat \<Rightarrow> 'a list \<Rightarrow> ('a, 'u) world
     \<Rightarrow> 'r option \<times> ('a, 'u) world" where
  "visit_list stop cb i [] w = (None, w)"
| "visit_list stop cb i (x # xs) w =
     (case cb x i w of
        (r, w1) \<Rightarrow> if stop r then (Some r, w1) else visit_list stop cb (i + 1) xs w1)"

fun filter_list ::
  "('a, 'u, bool) callback \<Rightarrow> nat \<Rightarrow> 'a list \<Rightarrow> 'a array \<Rightarrow> ('a, 'u) world \<Rightarrow> 'a array \<times> ('a, 'u) world" where
  "filter_list pred i [] result w = (result, w)"
| "filter_list pred i (x # xs) result w =
     (case pred x i w of
        (r, w1) \<Rightarrow> filter_list pred (i + 1) xs (if r then result @ [Some x] else result) w1)"

text \<open>
  The filtering rebuild that the specification compares \<open>removeAll\<close> with: collect with
  \<open>filter\<close> the elements that are not equal to \<open>v\<close>, build a fresh queue from them, and
  report how many elements were left out.
\<close>

definition removeAll_rebuild :: "('a \<Rightarrow> 'a \<Rightarrow> bool) \<Rightarrow> 'a \<Rightarrow> 'a Queue \<Rightarrow> (int \<times> 'a Queue) option" where
  "removeAll_rebuild eq v q =
     (case filter_q (\<lambda>x i w. (\<not> eq x v, w)) (q, ()) of
        None \<Rightarrow> None
      | Some (kept, w) \<Rightarrow> Some (p_size q - int (length kept), Queue_new (Some kept)))"

text \<open>Two queues are observationally equal when every query gives the same answer on both.\<close>

definition observably_equal :: "'a Queue \<Rightarrow> 'a Queue \<Rightarrow> bool" where
  "observably_equal q1 q2 =
     (elements q1 = elements q2 \<and> toArray q1 = toArray q2 \<and> size_q q1 = size_q q2 \<and>
      empty_q q1 = empty_q q2 \<and> front_q q1 = front_q q2 \<and> back_q q1 = back_q q2)"

text \<open>The queues of the specification's concrete scenarios.\<close>

definition scenario_A :: "int Queue" where
  "scenario_A = Queue_new (Some (map Some [0, 1, 2, 3]))"

definition scenario_C :: "int Queue" where
  "scenario_C = Queue_new (Some (map Some [42, 43, 44, 44, 45]))"

section \<open>Properties\<close>

subsection \<open>Chains in the store\<close>

lemma seg_append: "seg h p (as @ bs) e = (\<exists>m. seg h p as m \<and> seg h m bs e)"
  by (induction as arbitrary: p) auto

lemma seg_bound: "seg h p as e \<Longrightarrow> a \<in> set as \<Longrightarrow> a < length h"
  by (induction as arbitrary: p) auto

lemma seg_update: "a \<notin> set as \<Longrightarrow> seg (h[a := l]) p as e = seg h p as e"
  by (induction as arbitrary: p) (auto simp: nth_list_update)

lemma seg_grow: "seg h p as e \<Longrightarrow> seg (h @ hs) p as e"
  by (induction as arbitrary: p) (auto simp: nth_append)

lemma seg_unique: "seg h p as None \<Longrightarrow> seg h p bs None \<Longrightarrow> as = bs"
proof (induction as arbitrary: p bs)
  case Nil
  then show ?case by (cases bs) auto
next
  case (Cons a as)
  then show ?case by (cases bs) auto
qed

lemma seg_head_fresh:
  assumes "seg h (link_next (h ! a)) as None"
  shows "a \<notin> set as"
proof
  assume "a \<in> set as"
  then obtain bs cs where split: "as = bs @ a # cs"
    by (auto simp: in_set_conv_decomp)
  with assms obtain m where "seg h m (a # cs) None"
    by (auto simp: seg_append)
  then have tl: "seg h (link_next (h ! a)) cs None"
    by simp
  from seg_unique[OF assms tl] split show False
    by simp
qed

lemma seg_distinct: "seg h p as None \<Longrightarrow> distinct as"
  by (induction as arbitrary: p) (auto dest: seg_head_fresh)

lemma seg_snoc: "seg h p (as @ [a]) e = (seg h p as (Some a) \<and> a < length h \<and> link_next (h ! a) = e)"
  by (auto simp: seg_append)

lemma chain_iff: "(chain h n p = Some as) = (seg h p as None \<and> length as = n)"
proof (induction n arbitrary: p as)
  case 0
  then show ?case by (cases as) (auto split: option.splits)
next
  case (Suc n)
  then show ?case by (cases as) (auto split: option.splits)
qed

lemma linked_chain: "linked q as \<Longrightarrow> chain (heap q) (nat (p_size q)) (p_front q) = Some as"
  by (simp add: linked_def chain_iff)

lemma linked_elements: "linked q as \<Longrightarrow> elements q = vals (heap q) as"
  by (simp add: elements_def linked_chain vals_def)

lemma seg_first: "seg h p as e \<Longrightarrow> as \<noteq> [] \<Longrightarrow> p = Some (hd as)"
  by (cases as) auto

lemma linked_invariant: "linked q as \<Longrightarrow> invariant q"
proof -
  assume l: "linked q as"
  then have s: "seg (heap q) (p_front q) as None" and n: "p_size q = int (length as)"
    and b: "p_back q = last_of as"
    by (simp_all add: linked_def)
  show ?thesis
  proof (cases as rule: rev_cases)
    case Nil
    with s n b show ?thesis
      by (simp add: invariant_def last_of_def)
  next
    case (snoc bs a)
    from s snoc have 1: "a < length (heap q)" and 2: "link_next (heap q ! a) = None"
      by (simp_all add: seg_snoc)
    from seg_first[OF s] snoc have 3: "p_front q \<noteq> None"
      by simp
    from n snoc have 4: "p_size q \<noteq> 0" "0 \<le> p_size q"
      by simp_all
    from b snoc have 5: "p_back q = Some a"
      by (simp add: last_of_def)
    have 6: "distinct as" "as \<noteq> []" "last as = a"
      using seg_distinct[OF s] snoc by simp_all
    show ?thesis
      unfolding invariant_def by (simp add: linked_chain[OF l] 1 2 3 4 5 6)
  qed
qed

lemma invariant_linked: 
  assumes "invariant q" shows "\<exists>as. linked q as"
proof -
  from assms obtain as where c: "chain (heap q) (nat (p_size q)) (p_front q) = Some as"
    and n: "0 \<le> p_size q"
    and b: "(case p_back q of None \<Rightarrow> as = [] | Some b \<Rightarrow> as \<noteq> [] \<and> last as = b)"
    by (auto simp: invariant_def split: option.splits)
  from c have "seg (heap q) (p_front q) as None" "length as = nat (p_size q)"
    by (simp_all add: chain_iff)
  with n b have "linked q as"
    by (auto simp: linked_def last_of_def split: option.splits)
  then show ?thesis ..
qed

lemma invariant_iff: "invariant q = (\<exists>as. linked q as)"
  using linked_invariant invariant_linked by blast

subsection \<open>\<open>push\<close> and \<open>pop\<close>\<close>

lemma last_of_simps:
  "last_of [] = None" "last_of (as @ [a]) = Some a" "as \<noteq> [] \<Longrightarrow> last_of (b # as) = last_of as"
  by (simp_all add: last_of_def)

lemma vals_simps:
  "vals h [] = []" "vals h (a # as) = link_value (h ! a) # vals h as"
  "vals h (as @ bs) = vals h as @ vals h bs"
  by (simp_all add: vals_def)

lemma vals_cong:
  "(\<And>a. a \<in> set as \<Longrightarrow> link_value (h' ! a) = link_value (h ! a)) \<Longrightarrow> vals h' as = vals h as"
  by (simp add: vals_def)

lemma push_linked:
  assumes "linked q as"
  shows "linked (push v q) (as @ [length (heap q)])"
    and "vals (heap (push v q)) (as @ [length (heap q)]) = vals (heap q) as @ [v]"
proof -
  let ?n = "length (heap q)"
  let ?l = "\<lparr>link_next = None, link_value = v\<rparr>"
  from assms have s: "seg (heap q) (p_front q) as None" and n: "p_size q = int (length as)"
    and b: "p_back q = last_of as"
    by (simp_all add: linked_def)
  have bound: "\<And>a. a \<in> set as \<Longrightarrow> a < ?n"
    using seg_bound[OF s] .
  have "linked (push v q) (as @ [?n]) \<and> vals (heap (push v q)) (as @ [?n]) = vals (heap q) as @ [v]"
  proof (cases as rule: rev_cases)
    case Nil
    with s n b show ?thesis
      by (simp add: push_def Let_def linked_def last_of_def vals_simps)
  next
    case (snoc bs c)
    from b snoc have bk: "p_back q = Some c"
      by (simp add: last_of_simps)
    from s snoc have 1: "seg (heap q) (p_front q) bs (Some c)" and 2: "c < ?n"
      by (simp_all add: seg_snoc)
    from seg_distinct[OF s] snoc have 3: "c \<notin> set bs"
      by simp
    let ?h = "(heap q @ [?l])[c := ((heap q @ [?l]) ! c)\<lparr>link_next := Some ?n\<rparr>]"
    have hp: "heap (push v q) = ?h" and fp: "p_front (push v q) = p_front q"
      and sp: "p_size (push v q) = p_size q + 1" and bp: "p_back (push v q) = Some ?n"
      by (simp_all add: push_def bk Let_def)
    have "seg ?h (p_front q) bs (Some c)"
      using 1 3 by (simp add: seg_update seg_grow)
    moreover have "link_next (?h ! c) = Some ?n" "link_next (?h ! ?n) = None"
      using 2 by (simp_all add: nth_append)
    ultimately have "seg ?h (p_front q) (bs @ [c] @ [?n]) None"
      using 2 by (simp add: seg_append)
    then have l: "linked (push v q) (as @ [?n])"
      using snoc n by (simp add: linked_def hp fp sp bp last_of_def)
    have "vals ?h as = vals (heap q) as"
      using bound by (intro vals_cong) (auto simp: nth_list_update nth_append)
    moreover have "link_value (?h ! ?n) = v"
      using 2 by simp
    ultimately have "vals (heap (push v q)) (as @ [?n]) = vals (heap q) as @ [v]"
      by (simp add: hp vals_simps)
    with l show ?thesis ..
  qed
  then show "linked (push v q) (as @ [length (heap q)])"
    and "vals (heap (push v q)) (as @ [length (heap q)]) = vals (heap q) as @ [v]"
    by simp_all
qed

lemma pop_linked_Nil: "linked q [] \<Longrightarrow> pop q = (None, q)"
  by (simp add: linked_def pop_def)

lemma pop_linked_Cons:
  assumes "linked q (a # as)"
  shows "\<exists>q'. pop q = (Some (link_value (heap q ! a)), q') \<and> linked q' as \<and> heap q' = heap q"
proof -
  from assms have f: "p_front q = Some a" and s: "seg (heap q) (link_next (heap q ! a)) as None"
    and n: "p_size q = int (length as) + 1" and b: "p_back q = last_of (a # as)"
    by (simp_all add: linked_def)
  show ?thesis
  proof (cases as)
    case Nil
    with f s n show ?thesis
      by (simp add: pop_def Let_def linked_def last_of_def)
  next
    case (Cons c cs)
    with s have "link_next (heap q ! a) = Some c"
      by simp
    with f s n b Cons show ?thesis
      by (simp add: pop_def Let_def linked_def last_of_def)
  qed
qed

subsection \<open>Observations, sequences of calls and the constructor\<close>

lemma linked_Queue_init: "linked Queue_init []"
  by (simp add: linked_def Queue_init_def last_of_def)

lemma linked_empty: "linked q as \<Longrightarrow> empty_q q \<Longrightarrow> as = []"
  by (simp add: linked_def empty_q_def)

lemma linked_size: "linked q as \<Longrightarrow> size_q q = int (length as)"
  by (simp add: linked_def size_q_def)

lemma linked_front: "linked q as \<Longrightarrow> front_q q = head_of (vals (heap q) as)"
  by (cases as) (simp_all add: linked_def front_q_def head_of_def vals_simps)

lemma linked_back: "linked q as \<Longrightarrow> back_q q = last_of (vals (heap q) as)"
  by (cases as rule: rev_cases) (simp_all add: linked_def back_q_def last_of_def vals_def)

lemma linked_clear: "linked (clear q) []"
  by (simp add: linked_def clear_def last_of_def)

lemma push_all_linked:
  "linked q as \<Longrightarrow>
   \<exists>bs. linked (push_all vs q) (as @ bs) \<and>
        vals (heap (push_all vs q)) (as @ bs) = vals (heap q) as @ vs"
proof (induction vs arbitrary: q as)
  case Nil
  then show ?case by (intro exI[of _ "[]"]) simp
next
  case (Cons v vs)
  from Cons.IH[OF push_linked(1)[OF Cons.prems, of v]] push_linked(2)[OF Cons.prems, of v]
  obtain bs where "linked (push_all (v # vs) q) (as @ length (heap q) # bs)"
    "vals (heap (push_all (v # vs) q)) (as @ length (heap q) # bs) = vals (heap q) as @ v # vs"
    by auto
  then show ?case by blast
qed

lemma pop_n_linked:
  "linked q as \<Longrightarrow>
   \<exists>q'. pop_n (length as) q = (map Some (vals (heap q) as), q') \<and> linked q' []"
proof (induction as arbitrary: q)
  case Nil
  then show ?case by (simp add: vals_simps)
next
  case (Cons a as)
  from pop_linked_Cons[OF Cons.prems] obtain q1 where
    1: "pop q = (Some (link_value (heap q ! a)), q1)" and 2: "linked q1 as" and 3: "heap q1 = heap q"
    by blast
  from Cons.IH[OF 2] 3 obtain q' where
    "pop_n (length as) q1 = (map Some (vals (heap q) as), q')" "linked q' []"
    by auto
  with 1 show ?case by (simp add: vals_simps)
qed

lemma constructor_forEach_linked:
  "linked q as \<Longrightarrow>
   \<exists>bs. linked (constructor_forEach items q) (as @ bs) \<and>
        vals (heap (constructor_forEach items q)) (as @ bs) =
          vals (heap q) as @ map the (filter (\<lambda>s. s \<noteq> None) items)"
proof (induction items q arbitrary: as rule: constructor_forEach.induct)
  case (1 q)
  then show ?case by (intro exI[of _ "[]"]) simp
next
  case (2 items q)
  then show ?case by simp
next
  case (3 item items q)
  from "3.IH"[OF push_linked(1)[OF "3.prems", of item]] push_linked(2)[OF "3.prems", of item]
  obtain bs where "linked (constructor_forEach (Some item # items) q) (as @ length (heap q) # bs)"
    "vals (heap (constructor_forEach (Some item # items) q)) (as @ length (heap q) # bs) =
       vals (heap q) as @ map the (filter (\<lambda>s. s \<noteq> None) (Some item # items))"
    by auto
  then show ?case by blast
qed

lemma Queue_new_linked:
  "\<exists>bs. linked (Queue_new items) bs \<and>
        vals (heap (Queue_new items)) bs =
          (case items of None \<Rightarrow> [] | Some xs \<Rightarrow> map the (filter (\<lambda>s. s \<noteq> None) xs))"
proof (cases items)
  case None
  then show ?thesis
    using linked_Queue_init by (auto simp: Queue_new_def vals_simps)
next
  case (Some xs)
  from constructor_forEach_linked[OF linked_Queue_init, of xs] Some show ?thesis
    by (simp add: Queue_new_def vals_simps)
qed

subsection \<open>\<open>remove\<close>\<close>

lemma value_relink [simp]: "link_value (h[p := (h ! p)\<lparr>link_next := n\<rparr>] ! a) = link_value (h ! a)"
  by (cases "p < length h") (simp_all add: nth_list_update list_update_beyond)

lemma remove_loop_skip:
  "seg (heap q) link bs m \<Longrightarrow> \<forall>b\<in>set bs. \<not> eq (link_value (heap q ! b)) v \<Longrightarrow>
   remove_loop eq v link prev q =
     remove_loop eq v m (if bs = [] then prev else Some (last bs)) q"
proof (induction bs arbitrary: link prev)
  case Nil
  then show ?case by simp
next
  case (Cons b bs)
  from Cons.prems have l: "link = Some b" and s: "seg (heap q) (link_next (heap q ! b)) bs m"
    and nb: "\<not> eq (link_value (heap q ! b)) v" and rest: "\<forall>c\<in>set bs. \<not> eq (link_value (heap q ! c)) v"
    by simp_all
  have "remove_loop eq v link prev q = remove_loop eq v (link_next (heap q ! b)) (Some b) q"
    by (subst remove_loop.simps) (simp add: l nb)
  also have "\<dots> = remove_loop eq v m (if bs = [] then Some b else Some (last bs)) q"
    by (rule Cons.IH[OF s rest])
  finally show ?case by simp
qed

lemma remove_loop_hit:
  assumes l: "linked q (as1 @ a # as2)" and hit: "eq (link_value (heap q ! a)) v"
  shows "\<exists>q'. remove_loop eq v (Some a) (last_of as1) q = Some (True, q') \<and>
              linked q' (as1 @ as2) \<and> vals (heap q') (as1 @ as2) = vals (heap q) (as1 @ as2)"
proof -
  let ?h = "heap q"
  from l have s: "seg ?h (p_front q) (as1 @ a # as2) None"
    and n: "p_size q = int (length as1) + int (length as2) + 1"
    and b: "p_back q = last_of (as1 @ a # as2)"
    by (simp_all add: linked_def)
  from seg_distinct[OF s] have d: "distinct as1" "a \<notin> set as1" "a \<notin> set as2" "set as1 \<inter> set as2 = {}"
    by auto
  from s obtain m where s1: "seg ?h (p_front q) as1 m" and s2: "seg ?h m (a # as2) None"
    by (auto simp: seg_append)
  from s2 have ma: "m = Some a" and a: "a < length ?h" and s3: "seg ?h (link_next (?h ! a)) as2 None"
    by simp_all
  have nx: "(link_next (?h ! a) = None) = (as2 = [])"
    using s3 by (cases as2) auto
  have bk: "as2 \<noteq> [] \<Longrightarrow> p_back q = last_of as2"
    using b by (simp add: last_of_def)
  show ?thesis
  proof (cases as1 rule: rev_cases)
    case Nil
    with s1 ma have f: "p_front q = Some a"
      by simp
    let ?q = "q\<lparr>p_front := link_next (?h ! a), p_back := last_of as2, p_size := p_size q - 1\<rparr>"
    have "remove_loop eq v (Some a) (last_of as1) q = Some (True, ?q)"
      using bk by (subst remove_loop.simps) (cases "as2 = []"; simp add: hit Nil last_of_def nx Let_def)
    moreover have "linked ?q (as1 @ as2)"
      using Nil s3 n bk nx by (simp add: linked_def last_of_def)
    moreover have "heap ?q = ?h"
      by simp
    ultimately show ?thesis
      by (intro exI[of _ ?q]) simp
  next
    case (snoc cs p)
    from s1 ma snoc have c1: "seg ?h (p_front q) cs (Some p)" and p: "p < length ?h"
      by (simp_all add: seg_snoc)
    from d snoc have pd: "p \<notin> set cs" "p \<noteq> a" "p \<notin> set as2"
      by auto
    let ?h' = "?h[p := (?h ! p)\<lparr>link_next := link_next (?h ! a)\<rparr>]"
    let ?q = "q\<lparr>heap := ?h', p_back := last_of (as1 @ as2), p_size := p_size q - 1\<rparr>"
    have na: "link_next (?h' ! a) = link_next (?h ! a)"
      using pd by simp
    have run: "remove_loop eq v (Some a) (last_of as1) q = Some (True, ?q)"
      using bk by (subst remove_loop.simps) (cases "as2 = []"; simp add: hit snoc last_of_def nx na Let_def)
    have "seg ?h' (p_front q) (cs @ [p] @ as2) None"
      using c1 p s3 pd by (simp add: seg_append seg_update)
    then have "seg (heap ?q) (p_front ?q) (as1 @ as2) None"
      using snoc by simp
    moreover have "p_size ?q = int (length (as1 @ as2))"
      using n by simp
    moreover have "p_back ?q = last_of (as1 @ as2)"
      by simp
    ultimately have "linked ?q (as1 @ as2)"
      unfolding linked_def by blast
    moreover have "vals ?h' (as1 @ as2) = vals ?h (as1 @ as2)"
      by (rule vals_cong) simp
    then have "vals (heap ?q) (as1 @ as2) = vals ?h (as1 @ as2)"
      by simp
    moreover note run
    ultimately show ?thesis
      by (intro exI[of _ ?q]) simp
  qed
qed

lemma remove_miss:
  assumes "linked q as" and "\<forall>a\<in>set as. \<not> eq (link_value (heap q ! a)) v"
  shows "remove eq v q = Some (False, q)"
proof -
  from assms(1) have "seg (heap q) (p_front q) as None"
    by (simp add: linked_def)
  from remove_loop_skip[where eq = eq and v = v and prev = None, OF this assms(2)] show ?thesis
    by (simp add: remove_def remove_loop.simps[of eq v None])
qed

lemma remove_hit:
  assumes l: "linked q (as1 @ a # as2)" and "\<forall>b\<in>set as1. \<not> eq (link_value (heap q ! b)) v"
    and hit: "eq (link_value (heap q ! a)) v"
  shows "\<exists>q'. remove eq v q = Some (True, q') \<and> linked q' (as1 @ as2) \<and>
              vals (heap q') (as1 @ as2) = vals (heap q) (as1 @ as2)"
proof -
  from l obtain m where "seg (heap q) (p_front q) as1 m" "seg (heap q) m (a # as2) None"
    by (auto simp: linked_def seg_append)
  then have "seg (heap q) (p_front q) as1 (Some a)"
    by simp
  from remove_loop_skip[where eq = eq and v = v and prev = None, OF this assms(2)]
  have "remove eq v q = remove_loop eq v (Some a) (last_of as1) q"
    by (simp add: remove_def last_of_def)
  with remove_loop_hit[where eq = eq and v = v, OF l hit] show ?thesis
    by simp
qed

subsection \<open>\<open>removeAll\<close>\<close>

lemma joined_single: "b < length h \<Longrightarrow> joined h (Some b) [b]"
  by (simp add: joined_def)

lemma removeAll_loop_run:
  assumes "seg (heap q) link bs None" and "distinct (ks @ bs)"
    and "joined (heap q) (p_front q) ks"
    and "\<forall>a. M a = eq (link_value (heap q ! a)) v"
  shows "\<exists>q'. removeAll_loop eq v count link (last_of ks) q =
                 Some (count + int (length (filter M bs)),
                       last_of (ks @ filter (\<lambda>a. \<not> M a) bs), q') \<and>
              joined (heap q') (p_front q') (ks @ filter (\<lambda>a. \<not> M a) bs) \<and>
              (\<forall>a. link_value (heap q' ! a) = link_value (heap q ! a)) \<and>
              p_size q' = p_size q - int (length (filter M bs)) \<and>
              p_back q' = p_back q"
  using assms
proof (induction bs arbitrary: q link ks count)
  case Nil
  then show ?case
    by (simp add: removeAll_loop.simps[of eq v count None])
next
  case (Cons b bs)
  let ?h = "heap q"
  from Cons.prems have l: "link = Some b" and b: "b < length ?h"
    and s: "seg ?h (link_next (?h ! b)) bs None"
    and M: "\<And>a. M a = eq (link_value (?h ! a)) v"
    by simp_all
  show ?case
  proof (cases "M b")
    case True
    let ?q = "q\<lparr>p_size := p_size q - 1\<rparr>"
    have step: "removeAll_loop eq v count link (last_of ks) q =
                removeAll_loop eq v (count + 1) (link_next (?h ! b)) (last_of ks) ?q"
      using True M by (subst removeAll_loop.simps) (simp add: l)
    have "seg (heap ?q) (link_next (?h ! b)) bs None" "distinct (ks @ bs)"
      "joined (heap ?q) (p_front ?q) ks" "\<forall>a. M a = eq (link_value (heap ?q ! a)) v"
      using s Cons.prems by simp_all
    from Cons.IH[OF this, of "count + 1"] True step show ?thesis
      by auto
  next
    case False
    show ?thesis
    proof (cases ks rule: rev_cases)
      case Nil
      let ?q = "q\<lparr>p_front := Some b\<rparr>"
      have step: "removeAll_loop eq v count link (last_of ks) q =
                  removeAll_loop eq v count (link_next (?h ! b)) (last_of [b]) ?q"
        using False M by (subst removeAll_loop.simps) (simp add: l Nil last_of_def)
      have "seg (heap ?q) (link_next (?h ! b)) bs None" "distinct ([b] @ bs)"
        "joined (heap ?q) (p_front ?q) [b]" "\<forall>a. M a = eq (link_value (heap ?q ! a)) v"
        using s b Cons.prems Nil by (simp_all add: joined_single)
      from Cons.IH[OF this, of count] False step Nil show ?thesis
        by auto
    next
      case (snoc cs p)
      let ?h' = "?h[p := (?h ! p)\<lparr>link_next := Some b\<rparr>]"
      let ?q = "q\<lparr>heap := ?h'\<rparr>"
      from Cons.prems(2) snoc have d: "p \<noteq> b" "p \<notin> set bs" "p \<notin> set cs"
        by auto
      from Cons.prems(3) snoc have j: "seg ?h (p_front q) cs (Some p)" and p: "p < length ?h"
        by (simp_all add: joined_def)
      have nb: "link_next (?h' ! b) = link_next (?h ! b)"
        using d by simp
      have step: "removeAll_loop eq v count link (last_of ks) q =
                  removeAll_loop eq v count (link_next (?h ! b)) (last_of (cs @ [p, b])) ?q"
        using False M by (subst removeAll_loop.simps) (simp add: l snoc last_of_def nb Let_def)
      have 1: "seg (heap ?q) (link_next (?h ! b)) bs None"
        using s d by (simp add: seg_update)
      have 2: "distinct ((cs @ [p, b]) @ bs)"
        using Cons.prems(2) snoc by auto
      have "seg ?h' (p_front q) (cs @ [p]) (Some b)"
        using j p d by (simp add: seg_snoc seg_update)
      then have 3: "joined (heap ?q) (p_front ?q) (cs @ [p, b])"
        using b by (simp add: joined_def butlast_append)
      have 4: "\<forall>a. M a = eq (link_value (heap ?q ! a)) v"
        using M by simp
      from Cons.IH[OF 1 2 3 4, of count] False step snoc show ?thesis
        by auto
    qed
  qed
qed

lemma linked_refs:
  "linked q as \<Longrightarrow> (p_front q = None) = (as = []) \<and> (p_back q = None) = (as = [])"
  by (cases as) (auto simp: linked_def last_of_def)

lemma removeAll_linked:
  assumes l: "linked q as" and M: "\<forall>a. M a = eq (link_value (heap q ! a)) v"
  shows "\<exists>q'. removeAll_q eq v q = Some (int (length (filter M as)), q') \<and>
              linked q' (filter (\<lambda>a. \<not> M a) as) \<and>
              (\<forall>a. link_value (heap q' ! a) = link_value (heap q ! a))"
proof -
  let ?ks = "filter (\<lambda>a. \<not> M a) as"
  from l have s: "seg (heap q) (p_front q) as None" and n: "p_size q = int (length as)"
    by (simp_all add: linked_def)
  have "distinct ([] @ as)" "joined (heap q) (p_front q) []"
    using seg_distinct[OF s] by (simp_all add: joined_def)
  from removeAll_loop_run[where eq = eq and v = v and count = 0, OF s this M]
  obtain q1 where run: "removeAll_loop eq v 0 (p_front q) None q =
        Some (int (length (filter M as)), last_of ?ks, q1)"
    and j: "joined (heap q1) (p_front q1) ?ks"
    and v: "\<forall>a. link_value (heap q1 ! a) = link_value (heap q ! a)"
    and n1: "p_size q1 = p_size q - int (length (filter M as))"
    by (auto simp: last_of_def)
  have "length (filter M as) + length ?ks = length as"
    by (rule sum_length_filter_compl)
  with n n1 have sz: "p_size q1 = int (length ?ks)"
    by simp
  show ?thesis
  proof (cases ?ks rule: rev_cases)
    case Nil
    let ?q = "q1\<lparr>p_front := None, p_back := None\<rparr>"
    have "removeAll_q eq v q = Some (int (length (filter M as)), ?q)"
      using run Nil by (simp add: removeAll_q_def last_of_def)
    moreover have "linked ?q ?ks"
      using sz Nil by (simp add: linked_def last_of_def)
    ultimately show ?thesis
      using v by (intro exI[of _ ?q]) simp
  next
    case (snoc cs p)
    let ?h = "(heap q1)[p := (heap q1 ! p)\<lparr>link_next := None\<rparr>]"
    let ?q = "q1\<lparr>heap := ?h, p_back := Some p\<rparr>"
    have r: "removeAll_q eq v q = Some (int (length (filter M as)), ?q)"
      using run snoc by (simp add: removeAll_q_def last_of_def)
    from j snoc have c: "seg (heap q1) (p_front q1) cs (Some p)" and p: "p < length (heap q1)"
      by (simp_all add: joined_def)
    have "distinct ?ks"
      using seg_distinct[OF s] by simp
    with snoc have "p \<notin> set cs"
      by simp
    with c p have "seg ?h (p_front q1) (cs @ [p]) None"
      by (simp add: seg_snoc seg_update)
    then have "linked ?q ?ks"
      using sz snoc by (simp add: linked_def last_of_def)
    with r v show ?thesis
      by (intro exI[of _ ?q]) simp
  qed
qed

lemma vals_filter:
  "vals h (filter (\<lambda>a. P (link_value (h ! a))) as) = filter P (vals h as)"
  by (simp add: vals_def filter_map comp_def)

subsection \<open>The traversals\<close>

lemma preserves_queueD:
  assumes "preserves_queue cb" and "cb v i w = (r, w1)"
  shows "fst w1 = fst w"
proof -
  from assms(1) have "fst (snd (cb v i w)) = fst w"
    unfolding preserves_queue_def by blast
  with assms(2) show ?thesis
    by simp
qed

lemma preserves_queue_logging: "preserves_queue (logging f)"
  by (simp add: preserves_queue_def logging_def)

lemma visit_list_queue:
  "preserves_queue cb \<Longrightarrow> fst (snd (visit_list stop cb i xs w)) = fst w"
proof (induction xs arbitrary: i w)
  case Nil
  then show ?case by simp
next
  case (Cons x xs)
  obtain r w1 where c: "cb x i w = (r, w1)"
    by (cases "cb x i w")
  with preserves_queueD[OF Cons.prems c] Cons.IH[OF Cons.prems, of "i + 1" w1] show ?case
    by simp
qed

lemma some_loop_visit:
  assumes "preserves_queue pred" and "seg (heap (fst w)) link as None"
  shows "some_loop pred i link w =
           Some (case visit_list (\<lambda>r. r) pred i (vals (heap (fst w)) as) w of
                   (None, w') \<Rightarrow> (False, w') | (Some r, w') \<Rightarrow> (True, w'))"
  using assms(2)
proof (induction as arbitrary: i link w)
  case Nil
  then show ?case
    by (simp add: some_loop.simps[of pred i None] vals_simps)
next
  case (Cons a as)
  obtain r w1 where c: "pred (link_value (heap (fst w) ! a)) i w = (r, w1)"
    by (cases "pred (link_value (heap (fst w) ! a)) i w")
  from preserves_queueD[OF assms(1) c] have q: "fst w1 = fst w" .
  from Cons.prems have l: "link = Some a" and s: "seg (heap (fst w1)) (link_next (heap (fst w1) ! a)) as None"
    by (simp_all add: q)
  from Cons.IH[OF s, of "i + 1"] show ?case
    by (subst some_loop.simps) (simp add: l c q vals_simps)
qed

lemma every_loop_visit:
  assumes "preserves_queue pred" and "seg (heap (fst w)) link as None"
  shows "every_loop pred i link w =
           Some (case visit_list (\<lambda>r. \<not> r) pred i (vals (heap (fst w)) as) w of
                   (None, w') \<Rightarrow> (True, w') | (Some r, w') \<Rightarrow> (False, w'))"
  using assms(2)
proof (induction as arbitrary: i link w)
  case Nil
  then show ?case
    by (simp add: every_loop.simps[of pred i None] vals_simps)
next
  case (Cons a as)
  obtain r w1 where c: "pred (link_value (heap (fst w) ! a)) i w = (r, w1)"
    by (cases "pred (link_value (heap (fst w) ! a)) i w")
  from preserves_queueD[OF assms(1) c] have q: "fst w1 = fst w" .
  from Cons.prems have l: "link = Some a" and s: "seg (heap (fst w1)) (link_next (heap (fst w1) ! a)) as None"
    by (simp_all add: q)
  from Cons.IH[OF s, of "i + 1"] show ?case
    by (subst every_loop.simps) (simp add: l c q vals_simps)
qed

lemma forEach_loop_visit:
  assumes "preserves_queue cb" and "seg (heap (fst w)) link as None"
  shows "forEach_loop cb i link w =
           Some (case visit_list (\<lambda>r. r \<noteq> None) cb i (vals (heap (fst w)) as) w of
                   (None, w') \<Rightarrow> (None, w') | (Some r, w') \<Rightarrow> (r, w'))"
  using assms(2)
proof (induction as arbitrary: i link w)
  case Nil
  then show ?case
    by (simp add: forEach_loop.simps[of cb i None] vals_simps)
next
  case (Cons a as)
  obtain r w1 where c: "cb (link_value (heap (fst w) ! a)) i w = (r, w1)"
    by (cases "cb (link_value (heap (fst w) ! a)) i w")
  from preserves_queueD[OF assms(1) c] have q: "fst w1 = fst w" .
  from Cons.prems have l: "link = Some a" and s: "seg (heap (fst w1)) (link_next (heap (fst w1) ! a)) as None"
    by (simp_all add: q)
  from Cons.IH[OF s, of "i + 1"] show ?case
    by (subst forEach_loop.simps) (simp add: l c q vals_simps)
qed

lemma filter_loop_list:
  assumes "preserves_queue pred" and "seg (heap (fst w)) link as None"
  shows "filter_loop pred i link result w =
           Some (filter_list pred i (vals (heap (fst w)) as) result w)"
  using assms(2)
proof (induction as arbitrary: i link result w)
  case Nil
  then show ?case
    by (simp add: filter_loop.simps[of pred i None] vals_simps)
next
  case (Cons a as)
  obtain r w1 where c: "pred (link_value (heap (fst w) ! a)) i w = (r, w1)"
    by (cases "pred (link_value (heap (fst w) ! a)) i w")
  from preserves_queueD[OF assms(1) c] have q: "fst w1 = fst w" .
  from Cons.prems have l: "link = Some a" and s: "seg (heap (fst w1)) (link_next (heap (fst w1) ! a)) as None"
    by (simp_all add: q)
  from Cons.IH[OF s, of "i + 1"] show ?case
    by (subst filter_loop.simps) (simp add: l c q vals_simps)
qed

lemma visit_list_logging_none:
  "\<forall>j<length xs. \<not> stop (f (xs ! j) (i + j)) \<Longrightarrow>
   visit_list stop (logging f) i xs (q, log) = (None, (q, log @ zip xs [i..<i + length xs]))"
proof (induction xs arbitrary: i log)
  case Nil
  then show ?case by simp
next
  case (Cons x xs)
  from Cons.prems have 0: "\<not> stop (f x i)"
    by (auto dest: spec[of _ 0])
  from Cons.prems have "\<forall>j<length xs. \<not> stop (f (xs ! j) (i + 1 + j))"
    by (auto dest: spec[of _ "Suc j" for j])
  from Cons.IH[OF this, of "log @ [(x, i)]"] 0 show ?case
    by (simp add: logging_def upt_conv_Cons del: upt_Suc)
qed

lemma visit_list_logging_first:
  "k < length xs \<Longrightarrow> stop (f (xs ! k) (i + k)) \<Longrightarrow> \<forall>j<k. \<not> stop (f (xs ! j) (i + j)) \<Longrightarrow>
   visit_list stop (logging f) i xs (q, log) =
     (Some (f (xs ! k) (i + k)), (q, log @ zip (take (Suc k) xs) [i..<i + Suc k]))"
proof (induction xs arbitrary: i log k)
  case Nil
  then show ?case by simp
next
  case (Cons x xs)
  show ?case
  proof (cases k)
    case 0
    with Cons.prems show ?thesis
      by (simp add: logging_def)
  next
    case (Suc k')
    with Cons.prems have 0: "\<not> stop (f x i)"
      by (auto dest: spec[of _ 0])
    from Cons.prems Suc have 1: "k' < length xs" and 2: "stop (f (xs ! k') (i + 1 + k'))"
      by simp_all
    from Cons.prems(3) Suc have 3: "\<forall>j<k'. \<not> stop (f (xs ! j) (i + 1 + j))"
      by (auto dest: spec[of _ "Suc j" for j])
    from Cons.IH[OF 1 2 3, of "log @ [(x, i)]"] 0 Suc show ?thesis
      by (simp add: logging_def upt_conv_Cons del: upt_Suc)
  qed
qed

lemma forEach_visit:
  assumes "invariant q" and "preserves_queue cb"
  shows "forEach cb (q, u) =
           Some (case visit_list (\<lambda>r. r \<noteq> None) cb 0 (elements q) (q, u) of
                   (None, w') \<Rightarrow> (None, w') | (Some r, w') \<Rightarrow> (r, w'))"
proof -
  from assms(1) obtain as where l: "linked q as"
    by (auto simp: invariant_iff)
  then have "seg (heap (fst (q, u))) (p_front q) as None"
    by (simp add: linked_def)
  from forEach_loop_visit[OF assms(2) this, of 0] show ?thesis
    by (simp add: forEach_def linked_elements[OF l])
qed

lemma some_visit:
  assumes "invariant q" and "preserves_queue pred"
  shows "some pred (q, u) =
           Some (case visit_list (\<lambda>r. r) pred 0 (elements q) (q, u) of
                   (None, w') \<Rightarrow> (False, w') | (Some r, w') \<Rightarrow> (True, w'))"
proof -
  from assms(1) obtain as where l: "linked q as"
    by (auto simp: invariant_iff)
  then have "seg (heap (fst (q, u))) (p_front q) as None"
    by (simp add: linked_def)
  from some_loop_visit[OF assms(2) this, of 0] show ?thesis
    by (simp add: some_def linked_elements[OF l])
qed

lemma every_visit:
  assumes "invariant q" and "preserves_queue pred"
  shows "every pred (q, u) =
           Some (case visit_list (\<lambda>r. \<not> r) pred 0 (elements q) (q, u) of
                   (None, w') \<Rightarrow> (True, w') | (Some r, w') \<Rightarrow> (False, w'))"
proof -
  from assms(1) obtain as where l: "linked q as"
    by (auto simp: invariant_iff)
  then have "seg (heap (fst (q, u))) (p_front q) as None"
    by (simp add: linked_def)
  from every_loop_visit[OF assms(2) this, of 0] show ?thesis
    by (simp add: every_def linked_elements[OF l])
qed

lemma invariant_empty_elements: "invariant q \<Longrightarrow> empty_q q \<Longrightarrow> elements q = []"
proof -
  assume "invariant q" and e: "empty_q q"
  then obtain as where l: "linked q as"
    by (auto simp: invariant_iff)
  from linked_empty[OF l e] linked_elements[OF l] show ?thesis
    by (simp add: vals_simps)
qed

subsection \<open>\<open>toArray\<close>, \<open>filter\<close> and observational equality\<close>

lemma toArray_loop_run:
  "seg h link as None \<Longrightarrow> length result = i + length as \<Longrightarrow>
   toArray_loop h i link result = Some (take i result @ map Some (vals h as))"
proof (induction as arbitrary: i link result)
  case Nil
  then show ?case
    by (simp add: toArray_loop.simps[of h i None] vals_simps)
next
  case (Cons a as)
  from Cons.prems have l: "link = Some a" and s: "seg h (link_next (h ! a)) as None"
    and i: "i < length result"
    by simp_all
  let ?r = "result[i := Some (link_value (h ! a))]"
  have set: "array_set result i (link_value (h ! a)) = ?r"
    using i by (simp add: array_set_def)
  have "length ?r = (i + 1) + length as"
    using Cons.prems by simp
  from Cons.IH[OF s this]
  have "toArray_loop h (i + 1) (link_next (h ! a)) ?r =
          Some (take i result @ Some (link_value (h ! a)) # map Some (vals h as))"
    using i by (simp add: take_Suc_conv_app_nth)
  then show ?case
    by (subst toArray_loop.simps) (simp add: l set vals_simps)
qed

lemma toArray_linked: "linked q as \<Longrightarrow> toArray q = Some (Inr (map Some (vals (heap q) as)))"
proof -
  assume l: "linked q as"
  then have s: "seg (heap q) (p_front q) as None" and n: "p_size q = int (length as)"
    by (simp_all add: linked_def)
  from toArray_loop_run[OF s, of "replicate (length as) None" 0] n show ?thesis
    by (simp add: toArray_def)
qed

lemma map_the_Some: "map the (filter (\<lambda>s. s \<noteq> None) (map Some xs)) = xs"
  by (induction xs) simp_all

lemma linked_observably_equal:
  assumes l1: "linked q1 as1" and l2: "linked q2 as2"
    and v: "vals (heap q1) as1 = vals (heap q2) as2"
  shows "observably_equal q1 q2"
proof -
  from v have "length as1 = length as2"
    by (auto simp: vals_def dest: arg_cong[where f = length])
  then have "size_q q1 = size_q q2" "empty_q q1 = empty_q q2"
    using l1 l2 by (simp_all add: linked_def size_q_def empty_q_def)
  then show ?thesis
    unfolding observably_equal_def
    by (simp add: linked_elements[OF l1] linked_elements[OF l2] toArray_linked[OF l1]
        toArray_linked[OF l2] linked_front[OF l1] linked_front[OF l2] linked_back[OF l1]
        linked_back[OF l2] v)
qed

lemma filter_list_pure:
  "filter_list (\<lambda>x i w. (P x, w)) i xs result w = (result @ map Some (filter P xs), w)"
  by (induction xs arbitrary: i result) simp_all

lemma filter_q_pure:
  assumes "linked q as"
  shows "filter_q (\<lambda>x i w. (P x, w)) (q, u) = Some (map Some (filter P (elements q)), (q, u))"
proof -
  have p: "preserves_queue (\<lambda>x i w. (P x, w))"
    by (simp add: preserves_queue_def)
  from assms have "seg (heap (fst (q, u))) (p_front q) as None"
    by (simp add: linked_def)
  from filter_loop_list[OF p this, of 0 "[]"] show ?thesis
    by (simp add: filter_q_def filter_list_pure linked_elements[OF assms])
qed

lemma remove_linked_invariant:
  assumes l: "linked q as"
  shows "\<exists>r q'. remove eq x q = Some (r, q') \<and> invariant q'"
proof (cases "\<exists>a\<in>set as. eq (link_value (heap q ! a)) x")
  case False
  then have "remove eq x q = Some (False, q)"
    by (intro remove_miss[OF l]) simp
  with linked_invariant[OF l] show ?thesis
    by blast
next
  case True
  from split_list_first_prop[OF True]
  obtain as1 a as2 where sp: "as = as1 @ a # as2" and hit: "eq (link_value (heap q ! a)) x"
    and miss: "\<forall>b\<in>set as1. \<not> eq (link_value (heap q ! b)) x"
    by blast
  from remove_hit[where eq = eq and v = x, OF l[unfolded sp] miss hit] linked_invariant
  show ?thesis
    by blast
qed

section \<open>The claims of the specification\<close>

text \<open>
  C5 (empty queue). On an empty queue \<open>front\<close>, \<open>back\<close> and \<open>pop\<close> return
  \<open>undefined\<close>, and \<open>pop\<close> leaves the whole state of the queue unchanged.
\<close>

theorem empty_queries:
  "invariant q \<Longrightarrow> empty_q q \<Longrightarrow> front_q q = None \<and> back_q q = None \<and> pop q = (None, q)"
proof -
  assume "invariant q" and e: "empty_q q"
  then obtain as where l: "linked q as"
    by (auto simp: invariant_iff)
  from linked_empty[OF l e] have "as = []" .
  with l have l0: "linked q []"
    by simp
  from linked_front[OF l0] linked_back[OF l0] pop_linked_Nil[OF l0] show ?thesis
    by (simp add: vals_simps head_of_def last_of_def)
qed

theorem empty_queries_witness:
  "invariant (clear (Queue_new (Some [Some (1::int), Some 2]))) \<and>
   empty_q (clear (Queue_new (Some [Some (1::int), Some 2]))) \<and>
   front_q (clear (Queue_new (Some [Some (1::int), Some 2]))) = None \<and>
   back_q (clear (Queue_new (Some [Some (1::int), Some 2]))) = None \<and>
   pop (clear (Queue_new (Some [Some (1::int), Some 2]))) =
     (None, clear (Queue_new (Some [Some (1::int), Some 2])))"
proof -
  have 1: "invariant (clear (Queue_new (Some [Some (1::int), Some 2])))"
    by code_simp
  have 2: "empty_q (clear (Queue_new (Some [Some (1::int), Some 2])))"
    by code_simp
  show ?thesis
    using 1 2 empty_queries[OF 1 2] by simp
qed

text \<open>
  C4 (\<open>remove\<close>). On a queue that satisfies the invariant: when no element is equal to
  \<open>x\<close>, \<open>remove\<close> returns \<open>false\<close> and the queue is unchanged; when some element is,
  \<open>remove\<close> returns \<open>true\<close>, the size decreases by exactly 1, and the one element removed
  is the first that is equal to \<open>x\<close>: the elements before it and after it stay, in order.
\<close>

theorem remove_first_occurrence:
  "invariant q \<Longrightarrow>
   (if \<exists>e\<in>set (elements q). eq e x
    then \<exists>q' ys y zs. remove eq x q = Some (True, q') \<and> invariant q' \<and>
           size_q q' = size_q q - 1 \<and> elements q = ys @ y # zs \<and>
           (\<forall>e\<in>set ys. \<not> eq e x) \<and> eq y x \<and> elements q' = ys @ zs
    else remove eq x q = Some (False, q))"
proof -
  assume "invariant q"
  then obtain as where l: "linked q as"
    by (auto simp: invariant_iff)
  let ?P = "\<lambda>a. eq (link_value (heap q ! a)) x"
  have el: "elements q = vals (heap q) as"
    by (rule linked_elements[OF l])
  show ?thesis
  proof (cases "\<exists>a\<in>set as. ?P a")
    case False
    then have "\<not> (\<exists>e\<in>set (elements q). eq e x)"
      by (auto simp: el vals_def)
    moreover from False have "remove eq x q = Some (False, q)"
      by (intro remove_miss[OF l]) simp
    ultimately show ?thesis by simp
  next
    case True
    from split_list_first_prop[OF True]
    obtain as1 a as2 where sp: "as = as1 @ a # as2" and hit: "?P a"
      and miss: "\<forall>b\<in>set as1. \<not> ?P b"
      by blast
    from remove_hit[where eq = eq and v = x, OF l[unfolded sp] miss hit] obtain q' where
      r: "remove eq x q = Some (True, q')" and l': "linked q' (as1 @ as2)"
      and v: "vals (heap q') (as1 @ as2) = vals (heap q) (as1 @ as2)"
      by blast
    have 1: "elements q = vals (heap q) as1 @ link_value (heap q ! a) # vals (heap q) as2"
      by (simp add: el sp vals_simps)
    have 2: "elements q' = vals (heap q) as1 @ vals (heap q) as2"
      using v by (simp add: linked_elements[OF l'] vals_simps)
    have 3: "\<forall>e\<in>set (vals (heap q) as1). \<not> eq e x"
      using miss by (simp add: vals_def)
    have 4: "size_q q' = size_q q - 1"
      by (simp add: linked_size[OF l'] linked_size[OF l] sp)
    from True have "\<exists>e\<in>set (elements q). eq e x"
      by (auto simp: el vals_def)
    moreover have "\<exists>q' ys y zs. remove eq x q = Some (True, q') \<and> invariant q' \<and>
           size_q q' = size_q q - 1 \<and> elements q = ys @ y # zs \<and>
           (\<forall>e\<in>set ys. \<not> eq e x) \<and> eq y x \<and> elements q' = ys @ zs"
      using r linked_invariant[OF l'] 1 2 3 4 hit by blast
    ultimately show ?thesis by simp
  qed
qed

theorem remove_first_occurrence_witness:
  "invariant scenario_C \<and>
   (\<exists>q'. remove (=) 44 scenario_C = Some (True, q') \<and> invariant q' \<and>
         size_q q' = size_q scenario_C - 1) \<and>
   remove (=) 19 scenario_C = Some (False, scenario_C)"
proof -
  have 1: "invariant scenario_C"
    by code_simp
  have 2: "\<exists>e\<in>set (elements scenario_C). e = 44"
    by code_simp
  have 3: "\<not> (\<exists>e\<in>set (elements scenario_C). e = 19)"
    by code_simp
  from remove_first_occurrence[OF 1, of "(=)" 44] 2
  have "\<exists>q'. remove (=) 44 scenario_C = Some (True, q') \<and> invariant q' \<and>
         size_q q' = size_q scenario_C - 1"
    by auto
  moreover from remove_first_occurrence[OF 1, of "(=)" 19] 3
  have "remove (=) 19 scenario_C = Some (False, scenario_C)"
    by simp
  ultimately show ?thesis
    using 1 by blast
qed

text \<open>
  C3 (\<open>removeAll\<close>). On a queue that satisfies the invariant, \<open>removeAll\<close> returns the
  number of elements equal to \<open>x\<close> (0 when there is none); the elements left are the
  elements not equal to \<open>x\<close>, in the order they had; size, front and back are those of
  the sequence left, and the front and back references are null exactly when nothing is
  left.
\<close>

theorem removeAll_filters:
  "invariant q \<Longrightarrow>
   \<exists>q'. removeAll_q eq x q = Some (int (length (filter (\<lambda>e. eq e x) (elements q))), q') \<and>
        elements q' = filter (\<lambda>e. \<not> eq e x) (elements q) \<and>
        invariant q' \<and>
        size_q q' = int (length (elements q')) \<and>
        front_q q' = head_of (elements q') \<and>
        back_q q' = last_of (elements q') \<and>
        (p_front q' = None) = (elements q' = []) \<and>
        (p_back q' = None) = (elements q' = [])"
proof -
  assume "invariant q"
  then obtain as where l: "linked q as"
    by (auto simp: invariant_iff)
  let ?M = "\<lambda>a. eq (link_value (heap q ! a)) x"
  from removeAll_linked[where eq = eq and v = x and M = ?M, OF l]
  obtain q' where r: "removeAll_q eq x q = Some (int (length (filter ?M as)), q')"
    and l': "linked q' (filter (\<lambda>a. \<not> ?M a) as)"
    and v: "\<forall>a. link_value (heap q' ! a) = link_value (heap q ! a)"
    by auto
  have el: "elements q = vals (heap q) as"
    by (rule linked_elements[OF l])
  have "vals (heap q') (filter (\<lambda>a. \<not> ?M a) as) = vals (heap q) (filter (\<lambda>a. \<not> ?M a) as)"
    using v by (intro vals_cong) simp
  then have el': "elements q' = filter (\<lambda>e. \<not> eq e x) (elements q)"
    by (simp add: linked_elements[OF l'] el vals_filter[where P = "\<lambda>e. \<not> eq e x"])
  have cnt: "length (filter ?M as) = length (filter (\<lambda>e. eq e x) (elements q))"
    by (simp add: el vals_def filter_map comp_def)
  have len: "length (elements q') = length (filter (\<lambda>a. \<not> ?M a) as)"
    by (simp add: linked_elements[OF l'] vals_def)
  have 1: "size_q q' = int (length (elements q'))"
    by (simp add: linked_size[OF l'] len)
  have 2: "front_q q' = head_of (elements q')" "back_q q' = last_of (elements q')"
    by (simp_all add: linked_front[OF l'] linked_back[OF l'] linked_elements[OF l'])
  have 3: "(p_front q' = None) = (elements q' = [])" "(p_back q' = None) = (elements q' = [])"
    using linked_refs[OF l'] len by auto
  from r cnt el' linked_invariant[OF l'] 1 2 3 show ?thesis
    by simp
qed

theorem removeAll_filters_witness:
  "invariant scenario_C \<and>
   (\<exists>q'. removeAll_q (=) 44 scenario_C = Some (2, q') \<and> elements q' = [42, 43, 45] \<and>
         invariant q' \<and> size_q q' = 3 \<and> front_q q' = Some 42 \<and> back_q q' = Some 45)"
proof -
  have 1: "invariant scenario_C"
    by code_simp
  have 2: "elements scenario_C = [42, 43, 44, 44, 45]"
    by code_simp
  from removeAll_filters[OF 1, of "(=)" 44] 1 show ?thesis
    unfolding 2 by (auto simp: head_of_def last_of_def)
qed

text \<open>
  C6 (\<open>forEach\<close>). On a queue that satisfies the invariant, \<open>forEach\<close> calls the callback
  on the elements from the front to the back, each with its 0-based index. When the call
  on element \<open>k\<close> is the first whose result is not \<open>undefined\<close>, that result is returned
  and the calls made are exactly those on the elements \<open>0..k\<close>: no later element is
  visited. When every call returns \<open>undefined\<close>, every element is visited and the result
  is \<open>undefined\<close>. The callback \<open>logging f\<close> records each call in the caller's state.
\<close>

theorem forEach_short_circuit:
  "invariant q \<Longrightarrow>
   (k < length (elements q) \<and> f (elements q ! k) k \<noteq> None \<and>
    (\<forall>j<k. f (elements q ! j) j = None) \<longrightarrow>
      forEach (logging f) (q, log) =
        Some (f (elements q ! k) k, (q, log @ calls (Suc k) (elements q)))) \<and>
   ((\<forall>j<length (elements q). f (elements q ! j) j = None) \<longrightarrow>
      forEach (logging f) (q, log) =
        Some (None, (q, log @ calls (length (elements q)) (elements q))))"
proof -
  assume inv: "invariant q"
  let ?xs = "elements q"
  note run = forEach_visit[OF inv preserves_queue_logging, of f log]
  have "forEach (logging f) (q, log) = Some (f (?xs ! k) k, (q, log @ calls (Suc k) ?xs))"
    if "k < length ?xs" "f (?xs ! k) k \<noteq> None" "\<forall>j<k. f (?xs ! j) j = None"
    using visit_list_logging_first[where stop = "\<lambda>r. r \<noteq> None" and f = f and i = 0
        and xs = ?xs and k = k and q = q and log = log] that
    by (simp add: run calls_def)
  moreover have "forEach (logging f) (q, log) = Some (None, (q, log @ calls (length ?xs) ?xs))"
    if "\<forall>j<length ?xs. f (?xs ! j) j = None"
    using visit_list_logging_none[where stop = "\<lambda>r. r \<noteq> None" and f = f and i = 0
        and xs = ?xs and q = q and log = log] that
    by (simp add: run calls_def)
  ultimately show ?thesis
    by blast
qed

theorem forEach_short_circuit_witness:
  "invariant scenario_A \<and>
   forEach (logging (\<lambda>v i. if v = 2 then Some True else None)) (scenario_A, []) =
     Some (Some True, (scenario_A, [(0, 0), (1, 1), (2, 2)])) \<and>
   forEach (logging (\<lambda>v i. if v = 7 then Some True else None)) (scenario_A, []) =
     Some (None, (scenario_A, [(0, 0), (1, 1), (2, 2), (3, 3)]))"
proof -
  have 1: "invariant scenario_A"
    by code_simp
  have 2: "elements scenario_A = [0, 1, 2, 3]"
    by code_simp
  from forEach_short_circuit[OF 1, of 2 "\<lambda>v i. if v = 2 then Some True else None" "[]"]
  have a: "forEach (logging (\<lambda>v i. if v = 2 then Some True else None)) (scenario_A, []) =
     Some (Some True, (scenario_A, [(0, 0), (1, 1), (2, 2)]))"
    unfolding 2 by (simp add: calls_def eval_nat_numeral All_less_Suc)
  from forEach_short_circuit[OF 1, of 0 "\<lambda>v i. if v = 7 then Some True else None" "[]"]
  have b: "forEach (logging (\<lambda>v i. if v = 7 then Some True else None)) (scenario_A, []) =
     Some (None, (scenario_A, [(0, 0), (1, 1), (2, 2), (3, 3)]))"
    unfolding 2 by (simp add: calls_def eval_nat_numeral All_less_Suc)
  from 1 a b show ?thesis
    by blast
qed

text \<open>
  C8 (\<open>some\<close> and \<open>every\<close>). On a queue that satisfies the invariant, \<open>some\<close> returns
  \<open>true\<close> at the first element, in front-to-back order and with its 0-based index, on
  which the predicate holds, and the predicate has then been evaluated on the elements up
  to that one only; it returns \<open>false\<close> when the predicate holds on no element, having
  evaluated it on all of them, and on the empty queue. Dually \<open>every\<close> returns \<open>false\<close> at
  the first element on which the predicate fails, and \<open>true\<close> when it holds on all
  elements and on the empty queue.
\<close>

theorem some_every_short_circuit:
  "invariant q \<Longrightarrow>
   (k < length (elements q) \<and> p (elements q ! k) k \<and> (\<forall>j<k. \<not> p (elements q ! j) j) \<longrightarrow>
      some (logging p) (q, log) = Some (True, (q, log @ calls (Suc k) (elements q)))) \<and>
   ((\<forall>j<length (elements q). \<not> p (elements q ! j) j) \<longrightarrow>
      some (logging p) (q, log) =
        Some (False, (q, log @ calls (length (elements q)) (elements q)))) \<and>
   (k < length (elements q) \<and> \<not> p (elements q ! k) k \<and> (\<forall>j<k. p (elements q ! j) j) \<longrightarrow>
      every (logging p) (q, log) = Some (False, (q, log @ calls (Suc k) (elements q)))) \<and>
   ((\<forall>j<length (elements q). p (elements q ! j) j) \<longrightarrow>
      every (logging p) (q, log) =
        Some (True, (q, log @ calls (length (elements q)) (elements q)))) \<and>
   (empty_q q \<longrightarrow>
      some (logging p) (q, log) = Some (False, (q, log)) \<and>
      every (logging p) (q, log) = Some (True, (q, log)))"
proof -
  assume inv: "invariant q"
  let ?xs = "elements q"
  note s = some_visit[OF inv preserves_queue_logging, of p log]
  note e = every_visit[OF inv preserves_queue_logging, of p log]
  have 1: "some (logging p) (q, log) = Some (True, (q, log @ calls (Suc k) ?xs))"
    if "k < length ?xs" "p (?xs ! k) k" "\<forall>j<k. \<not> p (?xs ! j) j"
    using visit_list_logging_first[where stop = "\<lambda>r. r" and f = p and i = 0
        and xs = ?xs and k = k and q = q and log = log] that
    by (simp add: s calls_def)
  have 2: "some (logging p) (q, log) = Some (False, (q, log @ calls (length ?xs) ?xs))"
    if "\<forall>j<length ?xs. \<not> p (?xs ! j) j"
    using visit_list_logging_none[where stop = "\<lambda>r. r" and f = p and i = 0
        and xs = ?xs and q = q and log = log] that
    by (simp add: s calls_def)
  have 3: "every (logging p) (q, log) = Some (False, (q, log @ calls (Suc k) ?xs))"
    if "k < length ?xs" "\<not> p (?xs ! k) k" "\<forall>j<k. p (?xs ! j) j"
    using visit_list_logging_first[where stop = "\<lambda>r. \<not> r" and f = p and i = 0
        and xs = ?xs and k = k and q = q and log = log] that
    by (simp add: e calls_def)
  have 4: "every (logging p) (q, log) = Some (True, (q, log @ calls (length ?xs) ?xs))"
    if "\<forall>j<length ?xs. p (?xs ! j) j"
    using visit_list_logging_none[where stop = "\<lambda>r. \<not> r" and f = p and i = 0
        and xs = ?xs and q = q and log = log] that
    by (simp add: e calls_def)
  have 5: "some (logging p) (q, log) = Some (False, (q, log)) \<and>
           every (logging p) (q, log) = Some (True, (q, log))"
    if "empty_q q"
    using invariant_empty_elements[OF inv that] by (simp add: s e)
  from 1 2 3 4 5 show ?thesis
    by blast
qed

theorem some_every_short_circuit_witness:
  "invariant scenario_A \<and>
   some (logging (\<lambda>v i. 1 < v)) (scenario_A, []) =
     Some (True, (scenario_A, [(0, 0), (1, 1), (2, 2)])) \<and>
   every (logging (\<lambda>v i. 1 < v)) (scenario_A, []) = Some (False, (scenario_A, [(0, 0)])) \<and>
   some (logging (\<lambda>v i. 4 < v)) (scenario_A, []) =
     Some (False, (scenario_A, [(0, 0), (1, 1), (2, 2), (3, 3)]))"
proof -
  have 1: "invariant scenario_A"
    by code_simp
  have 2: "elements scenario_A = [0, 1, 2, 3]"
    by code_simp
  from some_every_short_circuit[OF 1, of 2 "\<lambda>v i. 1 < v" "[]"]
  have a: "some (logging (\<lambda>v i. 1 < v)) (scenario_A, []) =
     Some (True, (scenario_A, [(0, 0), (1, 1), (2, 2)]))"
    unfolding 2 by (simp add: calls_def eval_nat_numeral All_less_Suc)
  from some_every_short_circuit[OF 1, of 0 "\<lambda>v i. 1 < v" "[]"]
  have b: "every (logging (\<lambda>v i. 1 < v)) (scenario_A, []) = Some (False, (scenario_A, [(0, 0)]))"
    unfolding 2 by (simp add: calls_def eval_nat_numeral All_less_Suc)
  from some_every_short_circuit[OF 1, of 0 "\<lambda>v i. 4 < v" "[]"]
  have c: "some (logging (\<lambda>v i. 4 < v)) (scenario_A, []) =
     Some (False, (scenario_A, [(0, 0), (1, 1), (2, 2), (3, 3)]))"
    unfolding 2 by (simp add: calls_def eval_nat_numeral All_less_Suc)
  from 1 a b c show ?thesis
    by blast
qed

text \<open>
  C10 (frame). On a queue that satisfies the invariant, \<open>some\<close>, \<open>every\<close> and \<open>forEach\<close>
  return, and when the callback does not itself mutate the queue, the queue after the
  call is the queue before it, whatever the callback does to the caller's state: its
  size, front, back and sequence of elements are unchanged.
\<close>

theorem traversals_frame:
  "invariant q \<Longrightarrow> preserves_queue pred \<Longrightarrow> preserves_queue cb \<Longrightarrow>
   (\<exists>r u'. some pred (q, u) = Some (r, (q, u'))) \<and>
   (\<exists>r u'. every pred (q, u) = Some (r, (q, u'))) \<and>
   (\<exists>r u'. forEach cb (q, u) = Some (r, (q, u')))"
proof -
  assume inv: "invariant q" and p: "preserves_queue pred" and c: "preserves_queue cb"
  obtain r1 q1 u1 where 1: "visit_list (\<lambda>r. r) pred 0 (elements q) (q, u) = (r1, (q1, u1))"
    by (metis surj_pair)
  obtain r2 q2 u2 where 2: "visit_list (\<lambda>r. \<not> r) pred 0 (elements q) (q, u) = (r2, (q2, u2))"
    by (metis surj_pair)
  obtain r3 q3 u3 where 3: "visit_list (\<lambda>r. r \<noteq> None) cb 0 (elements q) (q, u) = (r3, (q3, u3))"
    by (metis surj_pair)
  from visit_list_queue[OF p, of "\<lambda>r. r" 0 "elements q" "(q, u)"] 1 have q1: "q1 = q"
    by simp
  from visit_list_queue[OF p, of "\<lambda>r. \<not> r" 0 "elements q" "(q, u)"] 2 have q2: "q2 = q"
    by simp
  from visit_list_queue[OF c, of "\<lambda>r. r \<noteq> None" 0 "elements q" "(q, u)"] 3 have q3: "q3 = q"
    by simp
  have "\<exists>r u'. some pred (q, u) = Some (r, (q, u'))"
    using 1 by (cases r1) (auto simp: some_visit[OF inv p] q1)
  moreover have "\<exists>r u'. every pred (q, u) = Some (r, (q, u'))"
    using 2 by (cases r2) (auto simp: every_visit[OF inv p] q2)
  moreover have "\<exists>r u'. forEach cb (q, u) = Some (r, (q, u'))"
    using 3 by (cases r3) (auto simp: forEach_visit[OF inv c] q3)
  ultimately show ?thesis
    by blast
qed

theorem traversals_frame_witness:
  "invariant scenario_A \<and>
   preserves_queue (logging (\<lambda>v i. (1::int) < v)) \<and>
   preserves_queue (logging (\<lambda>(v::int) i. if v = 2 then Some True else None)) \<and>
   (\<exists>r u'. some (logging (\<lambda>v i. 1 < v)) (scenario_A, []) = Some (r, (scenario_A, u'))) \<and>
   (\<exists>r u'. every (logging (\<lambda>v i. 1 < v)) (scenario_A, []) = Some (r, (scenario_A, u'))) \<and>
   (\<exists>r u'. forEach (logging (\<lambda>v i. if v = 2 then Some True else None)) (scenario_A, []) =
              Some (r, (scenario_A, u')))"
proof -
  have 1: "invariant scenario_A"
    by code_simp
  have 2: "preserves_queue (logging (\<lambda>v i. (1::int) < v))"
    by (simp add: preserves_queue_def logging_def)
  have 3: "preserves_queue (logging (\<lambda>(v::int) i. if v = 2 then Some True else None))"
    by (simp add: preserves_queue_def logging_def)
  from 1 2 3 traversals_frame[OF 1 2 3, of "[]"] show ?thesis
    by blast
qed

text \<open>
  C1 (FIFO order). Pushing the values \<open>v1..vn\<close> in order and then popping returns first
  the elements the queue already held and then \<open>v1, ..., vn\<close>, in that order; so on an
  empty queue, \<open>n\<close> calls of \<open>pop\<close> after the pushes return \<open>v1, ..., vn\<close>.
\<close>

theorem fifo_order:
  "invariant q \<Longrightarrow>
   fst (pop_n (length (elements q) + length vs) (push_all vs q)) = map Some (elements q @ vs) \<and>
   (empty_q q \<longrightarrow> fst (pop_n (length vs) (push_all vs q)) = map Some vs)"
proof -
  assume inv: "invariant q"
  then obtain as where l: "linked q as"
    by (auto simp: invariant_iff)
  from push_all_linked[OF l, of vs] obtain bs where
    1: "linked (push_all vs q) (as @ bs)"
    and 2: "vals (heap (push_all vs q)) (as @ bs) = elements q @ vs"
    by (auto simp: linked_elements[OF l])
  from 2 have "length (as @ bs) = length (elements q) + length vs"
    by (auto simp: vals_def dest: arg_cong[where f = length])
  with pop_n_linked[OF 1] 2
  have g: "fst (pop_n (length (elements q) + length vs) (push_all vs q)) = map Some (elements q @ vs)"
    by auto
  have "fst (pop_n (length vs) (push_all vs q)) = map Some vs" if "empty_q q"
    using g invariant_empty_elements[OF inv that] by simp
  with g show ?thesis
    by blast
qed

theorem fifo_order_witness:
  "invariant (Queue_new None :: int Queue) \<and> empty_q (Queue_new None :: int Queue) \<and>
   fst (pop_n (length [10, 20, 30 :: int]) (push_all [10, 20, 30] (Queue_new None :: int Queue))) =
     [Some 10, Some 20, Some 30]"
proof -
  have 1: "invariant (Queue_new None :: int Queue)"
    by code_simp
  have 2: "empty_q (Queue_new None :: int Queue)"
    by code_simp
  from fifo_order[OF 1, of "[10, 20, 30]"] 2
  have "fst (pop_n (length [10, 20, 30 :: int]) (push_all [10, 20, 30] (Queue_new None :: int Queue))) =
     map Some [10, 20, 30]"
    by blast
  with 1 2 show ?thesis
    by simp
qed

text \<open>
  C2 (structural invariant). The constructor establishes the invariant, and \<open>push\<close>,
  \<open>pop\<close>, \<open>remove\<close>, \<open>removeAll\<close> and \<open>clear\<close> each return and preserve it: the count is 0
  iff the front is null iff the back is null, the chain from the front reaches null after
  exactly count steps without visiting a link twice, and the back is the last link of the
  chain, with a null \<open>next\<close>.
\<close>

theorem invariant_preserved:
  "invariant (Queue_new items) \<and>
   (invariant q \<longrightarrow>
      invariant (push v q) \<and>
      invariant (snd (pop q)) \<and>
      (\<exists>r q'. remove eq x q = Some (r, q') \<and> invariant q') \<and>
      (\<exists>n q'. removeAll_q eq x q = Some (n, q') \<and> invariant q') \<and>
      invariant (clear q))"
proof -
  have "invariant (Queue_new items)"
    using Queue_new_linked[of items] linked_invariant by blast
  moreover have "invariant (push v q) \<and> invariant (snd (pop q)) \<and>
      (\<exists>r q'. remove eq x q = Some (r, q') \<and> invariant q') \<and>
      (\<exists>n q'. removeAll_q eq x q = Some (n, q') \<and> invariant q') \<and>
      invariant (clear q)" if "invariant q"
  proof -
    from that obtain as where l: "linked q as"
      by (auto simp: invariant_iff)
    have 1: "invariant (push v q)"
      using push_linked(1)[OF l] linked_invariant by blast
    have 2: "invariant (snd (pop q))"
    proof (cases as)
      case Nil
      with l pop_linked_Nil[of q] that show ?thesis
        by simp
    next
      case (Cons a bs)
      with l pop_linked_Cons[of q a bs] linked_invariant show ?thesis
        by auto
    qed
    have 3: "\<exists>r q'. remove eq x q = Some (r, q') \<and> invariant q'"
      by (rule remove_linked_invariant[OF l])
    have 4: "\<exists>n q'. removeAll_q eq x q = Some (n, q') \<and> invariant q'"
      using removeAll_linked[where eq = eq and v = x and M = "\<lambda>a. eq (link_value (heap q ! a)) x", OF l]
        linked_invariant by blast
    have 5: "invariant (clear q)"
      using linked_clear linked_invariant by blast
    from 1 2 3 4 5 show ?thesis
      by blast
  qed
  ultimately show ?thesis
    by blast
qed

theorem invariant_preserved_witness:
  "invariant scenario_C \<and>
   invariant (Queue_new (Some (map Some [0, 1, 2, 3 :: int]))) \<and>
   invariant (push 7 scenario_C) \<and>
   invariant (snd (pop scenario_C)) \<and>
   (\<exists>r q'. remove (=) 44 scenario_C = Some (r, q') \<and> invariant q') \<and>
   (\<exists>n q'. removeAll_q (=) 44 scenario_C = Some (n, q') \<and> invariant q') \<and>
   invariant (clear scenario_C)"
proof -
  have 1: "invariant scenario_C"
    by code_simp
  from invariant_preserved[of "Some (map Some [0, 1, 2, 3])" scenario_C 7 "(=)" 44] 1
  show ?thesis
    by blast
qed

text \<open>
  C7 (round trip). On a queue that satisfies the invariant, \<open>toArray\<close> returns the array
  of the elements from the front to the back, and the queue constructed from that array
  is observationally equal to the original: same sequence of elements, same array, same
  size, emptiness, front and back.
\<close>

theorem toArray_round_trip:
  "invariant q \<Longrightarrow>
   \<exists>arr. toArray q = Some (Inr arr) \<and> arr = map Some (elements q) \<and>
         invariant (Queue_new (Some arr)) \<and>
         observably_equal (Queue_new (Some arr)) q"
proof -
  assume "invariant q"
  then obtain as where l: "linked q as"
    by (auto simp: invariant_iff)
  let ?arr = "map Some (elements q)"
  from Queue_new_linked[of "Some ?arr"] obtain bs where
    l': "linked (Queue_new (Some ?arr)) bs" and v': "vals (heap (Queue_new (Some ?arr))) bs = elements q"
    by (auto simp: map_the_Some)
  have "toArray q = Some (Inr ?arr)"
    by (simp add: toArray_linked[OF l] linked_elements[OF l])
  moreover have "observably_equal (Queue_new (Some ?arr)) q"
    using v' by (intro linked_observably_equal[OF l' l]) (simp add: linked_elements[OF l])
  ultimately show ?thesis
    using linked_invariant[OF l'] by simp
qed

theorem toArray_round_trip_witness:
  "invariant scenario_C \<and>
   toArray scenario_C = Some (Inr (map Some [42, 43, 44, 44, 45])) \<and>
   observably_equal (Queue_new (Some (map Some [42, 43, 44, 44, 45]))) scenario_C"
proof -
  have 1: "invariant scenario_C"
    by code_simp
  have 2: "elements scenario_C = [42, 43, 44, 44, 45]"
    by code_simp
  from toArray_round_trip[OF 1] 1 show ?thesis
    unfolding 2 by simp
qed

text \<open>
  C9 (\<open>removeAll\<close> against a filtering rebuild). On a queue that satisfies the invariant,
  the queue left by the in-place \<open>removeAll\<close> is observationally equal to the queue built
  afresh from the elements that \<open>filter\<close> keeps, those not equal to \<open>x\<close>, and both report
  the same count, the number of elements left out.
\<close>

theorem removeAll_refines_rebuild:
  "invariant q \<Longrightarrow>
   \<exists>n q1 q2. removeAll_q eq x q = Some (n, q1) \<and> removeAll_rebuild eq x q = Some (n, q2) \<and>
             observably_equal q1 q2 \<and> invariant q1 \<and> invariant q2 \<and>
             elements q2 = filter (\<lambda>e. \<not> eq e x) (elements q) \<and>
             n = int (length (filter (\<lambda>e. eq e x) (elements q)))"
proof -
  assume "invariant q"
  then obtain as where l: "linked q as"
    by (auto simp: invariant_iff)
  let ?M = "\<lambda>a. eq (link_value (heap q ! a)) x"
  let ?kept = "filter (\<lambda>e. \<not> eq e x) (elements q)"
  let ?n = "int (length (filter (\<lambda>e. eq e x) (elements q)))"
  have el: "elements q = vals (heap q) as"
    by (rule linked_elements[OF l])
  from removeAll_linked[where eq = eq and v = x and M = ?M, OF l]
  obtain q1 where r: "removeAll_q eq x q = Some (int (length (filter ?M as)), q1)"
    and l1: "linked q1 (filter (\<lambda>a. \<not> ?M a) as)"
    and v: "\<forall>a. link_value (heap q1 ! a) = link_value (heap q ! a)"
    by auto
  have cnt: "length (filter ?M as) = length (filter (\<lambda>e. eq e x) (elements q))"
    by (simp add: el vals_def filter_map comp_def)
  have "vals (heap q1) (filter (\<lambda>a. \<not> ?M a) as) = vals (heap q) (filter (\<lambda>a. \<not> ?M a) as)"
    using v by (intro vals_cong) simp
  then have v1: "vals (heap q1) (filter (\<lambda>a. \<not> ?M a) as) = ?kept"
    by (simp add: el vals_filter[where P = "\<lambda>e. \<not> eq e x"])
  let ?q2 = "Queue_new (Some (map Some ?kept))"
  from Queue_new_linked[of "Some (map Some ?kept)"] obtain bs where
    l2: "linked ?q2 bs" and v2: "vals (heap ?q2) bs = ?kept"
    by (auto simp: map_the_Some)
  have "length (filter (\<lambda>e. eq e x) (elements q)) + length ?kept = length (elements q)"
    by (rule sum_length_filter_compl)
  moreover have "p_size q = int (length (elements q))"
    using l by (simp add: linked_def el vals_def)
  ultimately have "p_size q - int (length (map Some ?kept)) = ?n"
    by simp
  then have rb: "removeAll_rebuild eq x q = Some (?n, ?q2)"
    by (simp add: removeAll_rebuild_def filter_q_pure[OF l])
  have "observably_equal q1 ?q2"
    by (rule linked_observably_equal[OF l1 l2]) (simp add: v1 v2)
  moreover have "elements ?q2 = ?kept"
    by (simp add: linked_elements[OF l2] v2)
  ultimately show ?thesis
    using r rb cnt linked_invariant[OF l1] linked_invariant[OF l2] by simp
qed

theorem removeAll_refines_rebuild_witness:
  "invariant scenario_C \<and>
   (\<exists>q1 q2. removeAll_q (=) 44 scenario_C = Some (2, q1) \<and>
            removeAll_rebuild (=) 44 scenario_C = Some (2, q2) \<and>
            observably_equal q1 q2 \<and> elements q2 = [42, 43, 45])"
proof -
  have 1: "invariant scenario_C"
    by code_simp
  have 2: "elements scenario_C = [42, 43, 44, 44, 45]"
    by code_simp
  from removeAll_refines_rebuild[OF 1, of "(=)" 44] 1 show ?thesis
    unfolding 2 by auto
qed

end
